theory Spec2Isabelle
  imports Main "HOL-Library.Word" "HOL-Library.Sublist"
begin

unbundle bit_operations_syntax

section \<open>The byte sink\<close>

text \<open>
  \<open>linewriter.New\<close> takes any \<open>io.Writer\<close>.  A sink is modelled by what it has been
  handed so far and by how it will answer its next calls: \<open>received\<close> holds, per call of
  the sink's \<open>Write\<close>, the bytes the sink took in that call, and \<open>script\<close> holds the
  answers still to come.  \<open>Accept\<close> takes the whole slice; \<open>Fail k e\<close> takes at most
  \<open>k\<close> bytes and returns the error \<open>e\<close>; \<open>Short k\<close> takes at most \<open>k\<close> bytes and
  returns no error (which the contract of \<open>io.Writer\<close> forbids when bytes are left over,
  and which \<open>bufio\<close> guards against).  A sink whose script has run out accepts everything.
  The returned count always lies between 0 and the length of the slice.
\<close>

type_synonym byte = "8 word"

datatype error = ErrShortWrite | SinkError nat

datatype response = Accept | Short nat | Fail nat error

record sink =
  received :: "byte list list"
  script :: "response list"

definition sink_Write :: "sink \<Rightarrow> byte list \<Rightarrow> nat \<times> error option \<times> sink" where
  "sink_Write s p =
     (case script s of
        [] \<Rightarrow> (length p, None, s\<lparr>received := received s @ [p]\<rparr>)
      | Accept # rs \<Rightarrow> (length p, None, s\<lparr>received := received s @ [p], script := rs\<rparr>)
      | Short k # rs \<Rightarrow>
          (min k (length p), None, s\<lparr>received := received s @ [take k p], script := rs\<rparr>)
      | Fail k e # rs \<Rightarrow>
          (min k (length p), Some e, s\<lparr>received := received s @ [take k p], script := rs\<rparr>))"

definition healthy :: "sink \<Rightarrow> bool" where
  "healthy s = list_all (\<lambda>r. r = Accept) (script s)"

section \<open>The buffered writer of the standard library\<close>

text \<open>
  \<open>bufio.Writer\<close> has the fields \<open>err\<close>, \<open>buf\<close>, \<open>n\<close> and \<open>wr\<close>.  Only the first
  \<open>n\<close> bytes of the array \<open>buf\<close> are ever read, so the model keeps these as the list
  \<open>buf\<close> (\<open>n\<close> is its length) and the length of the array as \<open>bufsize\<close>.
\<close>

record Writer =
  err :: "error option"
  buf :: "byte list"
  bufsize :: nat
  wr :: sink

definition defaultBufSize :: nat where
  "defaultBufSize = 4096"

definition bufio_NewWriter :: "sink \<Rightarrow> Writer" where
  "bufio_NewWriter w = \<lparr>err = None, buf = [], bufsize = defaultBufSize, wr = w\<rparr>"

definition Available :: "Writer \<Rightarrow> nat" where
  "Available b = bufsize b - length (buf b)"

definition Buffered :: "Writer \<Rightarrow> nat" where
  "Buffered b = length (buf b)"

text \<open>
  \<open>Flush\<close>: a recorded error is returned at once; an empty buffer needs no call of the
  sink; otherwise the buffer is handed to the sink, a short count without an error
  becomes \<open>ErrShortWrite\<close>, and on an error the bytes the sink did not take stay in the
  buffer and the error is recorded.
\<close>

definition bufio_Flush :: "Writer \<Rightarrow> error option \<times> Writer" where
  "bufio_Flush b =
     (if err b \<noteq> None then (err b, b)
      else if length (buf b) = 0 then (None, b)
      else (case sink_Write (wr b) (buf b) of (n, e, w) \<Rightarrow>
        (let e' = (if n < length (buf b) \<and> e = None then Some ErrShortWrite else e) in
         if e' \<noteq> None then (e', b\<lparr>buf := drop n (buf b), err := e', wr := w\<rparr>)
         else (None, b\<lparr>buf := [], wr := w\<rparr>))))"

text \<open>
  \<open>Write\<close>: while the slice does not fit and no error is recorded, either hand the
  slice to the sink directly (empty buffer) or fill the buffer and flush it; then return
  the recorded error, or copy what is left into the buffer.
\<close>

function bufio_Write :: "Writer \<Rightarrow> byte list \<Rightarrow> nat \<times> error option \<times> Writer" where
  "bufio_Write b p =
     (if length p > Available b \<and> err b = None then
        (if Buffered b = 0 then
           (case sink_Write (wr b) p of (n, e, w) \<Rightarrow>
              (case bufio_Write (b\<lparr>err := e, wr := w\<rparr>) (drop n p) of
                 (nn, r) \<Rightarrow> (n + nn, r)))
         else
           (let n = min (Available b) (length p);
                b' = snd (bufio_Flush (b\<lparr>buf := buf b @ take n p\<rparr>))
            in case bufio_Write b' (drop n p) of (nn, r) \<Rightarrow> (n + nn, r)))
      else if err b \<noteq> None then (0, err b, b)
      else (let n = min (Available b) (length p)
            in (n, None, b\<lparr>buf := buf b @ take n p\<rparr>)))"
  by pat_completeness auto


text \<open>
  Each turn of the loop of \<open>bufio_Write\<close> either uses up one answer of the sink, or,
  once the script has run out, empties the slice or the buffer.
\<close>

lemma sink_Write_cases:
  "sink_Write s p = (k, e, w) \<Longrightarrow>
     (length (script w) < length (script s) \<or>
      (script s = [] \<and> script w = [] \<and> k = length p \<and> e = None))"
  by (auto simp: sink_Write_def split: list.splits response.splits)

lemma bufio_Flush_cases:
  "err b = None \<Longrightarrow> buf b \<noteq> [] \<Longrightarrow> bufio_Flush b = (e, b') \<Longrightarrow>
     (length (script (wr b')) < length (script (wr b)) \<or>
      (script (wr b') = [] \<and> script (wr b) = [] \<and> err b' = None \<and> buf b' = []))"
  apply (simp add: bufio_Flush_def Let_def split: prod.splits if_splits)
  apply (auto dest: sink_Write_cases)
  done

termination bufio_Write
proof (relation "measures [\<lambda>(b, p). length (script (wr b)),
     \<lambda>(b, p). (if length p > Available b \<and> err b = None
                then 2 * length p + (if buf b = [] then 0 else 1) + 1 else 0)]", goal_cases)
  case 1
  show ?case by simp
next
  case (2 b p k r e w)
  then have sw: "sink_Write (wr b) p = (k, e, w)" by simp
  from 2 have c: "Available b < length p" "err b = None" by simp_all
  from sink_Write_cases[OF sw] c show ?case
    by (auto simp: Available_def)
next
  case (3 b p k b')
  define b1 where "b1 = b\<lparr>buf := buf b @ take k p\<rparr>"
  obtain e where fl: "bufio_Flush b1 = (e, b')"
    using 3 by (cases "bufio_Flush b1") (simp add: b1_def)
  have "err b1 = None" "buf b1 \<noteq> []" using 3 by (auto simp: b1_def Buffered_def)
  from bufio_Flush_cases[OF this fl] have
    "length (script (wr b')) < length (script (wr b)) \<or>
      (script (wr b') = [] \<and> script (wr b) = [] \<and> err b' = None \<and> buf b' = [])"
    by (simp add: b1_def)
  moreover have "buf b \<noteq> []" "Available b < length p" "err b = None"
    using 3 by (simp_all add: Buffered_def)
  ultimately show ?case
    by (auto simp: Available_def)
qed

declare bufio_Write.simps [simp del]

section \<open>UTF-8 encoding of the standard library\<close>

text \<open>
  A \<open>rune\<close> is an \<open>int32\<close>, kept here as its 32 bits.  \<open>uint32(r)\<close> reads the same
  bits unsigned (the order \<open>\<le>\<close> on words), \<open>r >> k\<close> is the arithmetic shift and
  \<open>byte(x)\<close> keeps the low 8 bits.  \<open>utf8_EncodeRune p r\<close> returns the slice \<open>p\<close> with
  the encoding written to its front, and the number of bytes written.  (The library
  panics when \<open>p\<close> is too short; \<open>WriteRune\<close> always passes 4 bytes.)
\<close>

type_synonym rune = "32 word"

definition UTFMax :: nat where "UTFMax = 4"
definition RuneError :: rune where "RuneError = 0xFFFD"
definition MaxRune :: rune where "MaxRune = 0x10FFFF"
definition surrogateMin :: rune where "surrogateMin = 0xD800"
definition surrogateMax :: rune where "surrogateMax = 0xDFFF"
definition rune1Max :: rune where "rune1Max = 0x7F"
definition rune2Max :: rune where "rune2Max = 0x7FF"
definition rune3Max :: rune where "rune3Max = 0xFFFF"
definition tx :: byte where "tx = 0x80"
definition t2 :: byte where "t2 = 0xC0"
definition t3 :: byte where "t3 = 0xE0"
definition t4 :: byte where "t4 = 0xF0"
definition maskx :: byte where "maskx = 0x3F"

definition to_byte :: "rune \<Rightarrow> byte" where
  "to_byte x = ucast x"

definition encode3 :: "byte list \<Rightarrow> rune \<Rightarrow> byte list \<times> nat" where
  "encode3 p r =
     (p[0 := t3 OR to_byte (signed_drop_bit 12 r),
        1 := tx OR (to_byte (signed_drop_bit 6 r) AND maskx),
        2 := tx OR (to_byte r AND maskx)], 3)"

definition utf8_EncodeRune :: "byte list \<Rightarrow> rune \<Rightarrow> byte list \<times> nat" where
  "utf8_EncodeRune p r =
     (let i = r in
      if i \<le> rune1Max then (p[0 := to_byte r], 1)
      else if i \<le> rune2Max then
        (p[0 := t2 OR to_byte (signed_drop_bit 6 r),
           1 := tx OR (to_byte r AND maskx)], 2)
      else if i > MaxRune \<or> (surrogateMin \<le> i \<and> i \<le> surrogateMax) then
        encode3 p RuneError
      else if i \<le> rune3Max then encode3 p r
      else
        (p[0 := t4 OR to_byte (signed_drop_bit 18 r),
           1 := tx OR (to_byte (signed_drop_bit 12 r) AND maskx),
           2 := tx OR (to_byte (signed_drop_bit 6 r) AND maskx),
           3 := tx OR (to_byte r AND maskx)], 4))"

section \<open>The line writer\<close>

record LineWriter =
  buffer :: Writer

definition newline :: byte where
  "newline = 0x0a"

definition New :: "sink \<Rightarrow> LineWriter" where
  "New w = \<lparr>buffer = bufio_NewWriter w\<rparr>"

text \<open>
  The closure \<open>passthrough\<close> of \<open>Write\<close> reads and writes the local \<open>lower\<close>, the
  named result \<open>n\<close> (here \<open>total\<close>) and the receiver (here \<open>this\<close>); the three travel
  together as a \<open>frame\<close>.  The slice \<open>p[lower:upper]\<close> is
  \<open>take (upper - lower) (drop lower p)\<close>; every call has \<open>lower \<le> upper \<le> len(p)\<close>.
\<close>

record frame =
  lower :: nat
  total :: nat
  this :: LineWriter

definition passthrough :: "byte list \<Rightarrow> nat \<Rightarrow> bool \<Rightarrow> frame \<Rightarrow> error option \<times> frame" where
  "passthrough p upper flush f =
     (case bufio_Write (buffer (this f)) (take (upper - lower f) (drop (lower f) p)) of
        (written, e, b) \<Rightarrow>
          (let f1 = f\<lparr>total := total f + written, this := \<lparr>buffer = b\<rparr>\<rparr> in
           if e \<noteq> None then (e, f1)
           else if flush then
             (case bufio_Flush b of (e2, b2) \<Rightarrow>
                (let f2 = f1\<lparr>this := \<lparr>buffer = b2\<rparr>\<rparr> in
                 if e2 \<noteq> None then (e2, f2) else (None, f2\<lparr>lower := upper\<rparr>)))
           else (None, f1\<lparr>lower := upper\<rparr>)))"

text \<open>
  The loop \<open>for i, b := range p\<close>: \<open>Write_loop p i cs f\<close> runs it from index \<open>i\<close>,
  where \<open>cs\<close> are the bytes of \<open>p\<close> from \<open>i\<close> on.  It stops at the first error.
\<close>

fun Write_loop :: "byte list \<Rightarrow> nat \<Rightarrow> byte list \<Rightarrow> frame \<Rightarrow> error option \<times> frame" where
  "Write_loop p i [] f = (None, f)"
| "Write_loop p i (c # cs) f =
     (if c = newline then
        (case passthrough p (i + 1) True f of (e, f') \<Rightarrow>
           if e \<noteq> None then (e, f') else Write_loop p (i + 1) cs f')
      else Write_loop p (i + 1) cs f)"

definition Write :: "LineWriter \<Rightarrow> byte list \<Rightarrow> nat \<times> error option \<times> LineWriter" where
  "Write l p =
     (case Write_loop p 0 p \<lparr>lower = 0, total = 0, this = l\<rparr> of (e, f) \<Rightarrow>
        if e \<noteq> None then (total f, e, this f)
        else if lower f < length p then
          (case passthrough p (length p) False f of (e', f') \<Rightarrow> (total f', e', this f'))
        else (total f, None, this f))"

definition WriteByte :: "LineWriter \<Rightarrow> byte \<Rightarrow> error option \<times> LineWriter" where
  "WriteByte l c = (case Write l [c] of (k, e, l') \<Rightarrow> (e, l'))"

definition WriteRune :: "LineWriter \<Rightarrow> rune \<Rightarrow> nat \<times> error option \<times> LineWriter" where
  "WriteRune l r =
     (case utf8_EncodeRune (replicate UTFMax 0) r of (bs, nbytes) \<Rightarrow> Write l (take nbytes bs))"

text \<open>A Go string is a sequence of bytes; \<open>[]byte(s)\<close> lists them.\<close>

definition bytes_of :: "string \<Rightarrow> byte list" where
  "bytes_of s = map of_char s"

definition WriteString :: "LineWriter \<Rightarrow> string \<Rightarrow> nat \<times> error option \<times> LineWriter" where
  "WriteString l s = Write l (bytes_of s)"

definition Flush :: "LineWriter \<Rightarrow> error option \<times> LineWriter" where
  "Flush l = (case bufio_Flush (buffer l) of (e, b) \<Rightarrow> (e, \<lparr>buffer = b\<rparr>))"

section \<open>What the sink has seen\<close>

text \<open>
  \<open>forwarded\<close> is every byte the sink has taken, in order; \<open>stream\<close> appends the bytes
  still held in the buffer.
\<close>

definition forwarded :: "Writer \<Rightarrow> byte list" where
  "forwarded b = concat (received (wr b))"

definition stream :: "Writer \<Rightarrow> byte list" where
  "stream b = forwarded b @ buf b"

text \<open>
  A buffered writer is \<open>sound\<close> when it has recorded no error and its sink will accept
  every call to come; \<open>took s p\<close> is the sink \<open>s\<close> after it accepted \<open>p\<close>.
\<close>

definition sound :: "Writer \<Rightarrow> bool" where
  "sound b = (err b = None \<and> healthy (wr b))"

definition took :: "sink \<Rightarrow> byte list \<Rightarrow> sink" where
  "took s p = s\<lparr>received := received s @ [p], script := tl (script s)\<rparr>"

definition healthy_sink :: sink where
  "healthy_sink = \<lparr>received = [], script = []\<rparr>"

section \<open>Sequences of calls\<close>

text \<open>
  The five operations as values, so that a history of the writer is a list.
  \<open>run\<close> performs the calls in order and collects the returned errors;
  \<open>input_of\<close> is the byte sequence a call asks to have written.
\<close>

datatype call = CWrite "byte list" | CWriteByte byte | CWriteRune rune
  | CWriteString string | CFlush

fun do_call :: "LineWriter \<Rightarrow> call \<Rightarrow> error option \<times> LineWriter" where
  "do_call l (CWrite p) = snd (Write l p)"
| "do_call l (CWriteByte c) = WriteByte l c"
| "do_call l (CWriteRune r) = snd (WriteRune l r)"
| "do_call l (CWriteString s) = snd (WriteString l s)"
| "do_call l CFlush = Flush l"

fun run :: "LineWriter \<Rightarrow> call list \<Rightarrow> error option list \<times> LineWriter" where
  "run l [] = ([], l)"
| "run l (c # cs) =
     (case do_call l c of (e, l1) \<Rightarrow> (case run l1 cs of (es, l2) \<Rightarrow> (e # es, l2)))"

definition encoding :: "rune \<Rightarrow> byte list" where
  "encoding r = (case utf8_EncodeRune (replicate UTFMax 0) r of (bs, nbytes) \<Rightarrow> take nbytes bs)"

fun input_of :: "call \<Rightarrow> byte list" where
  "input_of (CWrite p) = p"
| "input_of (CWriteByte c) = [c]"
| "input_of (CWriteRune r) = encoding r"
| "input_of (CWriteString s) = bytes_of s"
| "input_of CFlush = []"

text \<open>
  A rune is invalid when, read as a signed integer, it is negative, above \<open>U+10FFFF\<close>, or
  a surrogate.
\<close>

definition invalid_rune :: "rune \<Rightarrow> bool" where
  "invalid_rune r = (sint r < 0 \<or> 0x10FFFF < sint r \<or> (0xD800 \<le> sint r \<and> sint r \<le> 0xDFFF))"

text \<open>A sink that fails its first call, and the writer after a newline met that failure.\<close>

definition broken_sink :: sink where
  "broken_sink = \<lparr>received = [], script = [Fail 0 (SinkError 1)]\<rparr>"

definition failed_writer :: LineWriter where
  "failed_writer = snd (run (New broken_sink) [CWriteByte newline])"

section \<open>Facts about the buffered writer\<close>

text \<open>
  A call of the sink, a flush and an append each keep the order of the bytes: what the
  sink has taken only grows at its end, and the forwarded bytes followed by the buffered
  ones are the old ones followed by the bytes the call reports as written.
\<close>

lemma sink_Write_stream:
  "sink_Write s p = (k, e, w) \<Longrightarrow>
     k \<le> length p \<and> concat (received w) = concat (received s) @ take k p"
  by (auto simp: sink_Write_def min_def split: list.splits response.splits)

lemma bufio_Flush_stream:
  assumes "bufio_Flush b = (e, b')"
  shows "stream b' = stream b" and "bufsize b' = bufsize b" and "err b' = e"
    and "e = None \<Longrightarrow> buf b' = []" and "e = None \<Longrightarrow> err b = None"
    and "set (buf b') \<subseteq> set (buf b)" and "prefix (forwarded b) (forwarded b')"
proof -
  have both: "stream b' = stream b \<and> prefix (forwarded b) (forwarded b')"
  proof (cases "err b \<noteq> None \<or> buf b = []")
    case True
    then show ?thesis
      using assms by (auto simp: bufio_Flush_def split: if_splits)
  next
    case False
    obtain k e1 w where sw: "sink_Write (wr b) (buf b) = (k, e1, w)"
      by (cases "sink_Write (wr b) (buf b)") auto
    from sink_Write_stream[OF sw] False assms sw
    show ?thesis
      by (auto simp: bufio_Flush_def Let_def stream_def forwarded_def split: if_splits)
  qed
  then show "stream b' = stream b" "prefix (forwarded b) (forwarded b')" by simp_all
  show "bufsize b' = bufsize b" using assms
    by (auto simp: bufio_Flush_def Let_def split: if_splits prod.splits)
  show "err b' = e" using assms
    by (auto simp: bufio_Flush_def Let_def split: if_splits prod.splits)
  show "e = None \<Longrightarrow> buf b' = []" using assms
    by (auto simp: bufio_Flush_def Let_def split: if_splits prod.splits)
  show "e = None \<Longrightarrow> err b = None" using assms
    by (auto simp: bufio_Flush_def Let_def split: if_splits prod.splits)
  show "set (buf b') \<subseteq> set (buf b)" using assms
    by (auto simp: bufio_Flush_def Let_def split: if_splits prod.splits dest: in_set_dropD)
qed

lemma bufio_Write_props:
  "bufio_Write b p = (k, e, b') \<Longrightarrow>
     k \<le> length p \<and> stream b' = stream b @ take k p \<and> (e = None \<longrightarrow> k = length p)
     \<and> err b' = e \<and> bufsize b' = bufsize b \<and> set (buf b') \<subseteq> set (buf b) \<union> set p
     \<and> (e = None \<longrightarrow> err b = None) \<and> prefix (forwarded b) (forwarded b')"
proof (induction b p arbitrary: k e b' rule: bufio_Write.induct)
  case (1 b p)
  show ?case
  proof (cases "length p > Available b \<and> err b = None")
    case False
    then show ?thesis using "1.prems"
      by (auto simp: bufio_Write.simps[of b p] Let_def stream_def forwarded_def Available_def
          split: if_splits)
  next
    case loop: True
    show ?thesis
    proof (cases "Buffered b = 0")
      case True
      obtain k1 e1 w where sw: "sink_Write (wr b) p = (k1, e1, w)"
        by (cases "sink_Write (wr b) p") auto
      obtain k2 e2 b2 where rec: "bufio_Write (b\<lparr>err := e1, wr := w\<rparr>) (drop k1 p) = (k2, e2, b2)"
        by (cases "bufio_Write (b\<lparr>err := e1, wr := w\<rparr>) (drop k1 p)") auto
      from "1.prems" loop True sw rec have res: "k = k1 + k2" "e = e2" "b' = b2"
        by (simp_all add: bufio_Write.simps[of b p])
      from "1.IH"(1)[OF loop True sw[symmetric] refl rec]
      have ih: "k2 \<le> length (drop k1 p)"
        "stream b2 = stream (b\<lparr>err := e1, wr := w\<rparr>) @ take k2 (drop k1 p)"
        "e2 = None \<longrightarrow> k2 = length (drop k1 p)" "err b2 = e2" "bufsize b2 = bufsize b"
        "set (buf b2) \<subseteq> set (buf b) \<union> set (drop k1 p)"
        "prefix (forwarded (b\<lparr>err := e1, wr := w\<rparr>)) (forwarded b2)"
        by simp_all
      from sink_Write_stream[OF sw] have s1: "k1 \<le> length p"
        "concat (received w) = concat (received (wr b)) @ take k1 p" by simp_all
      have bempty: "buf b = []" using True by (simp add: Buffered_def)
      have "stream (b\<lparr>err := e1, wr := w\<rparr>) = stream b @ take k1 p"
        using s1 bempty by (simp add: stream_def forwarded_def)
      moreover have "take k1 p @ take k2 (drop k1 p) = take (k1 + k2) p"
        by (simp add: take_add)
      ultimately have "stream b2 = stream b @ take (k1 + k2) p"
        using ih(2) by simp
      moreover have "set (drop k1 p) \<subseteq> set p" by (rule set_drop_subset)
      moreover have "prefix (forwarded b) (forwarded (b\<lparr>err := e1, wr := w\<rparr>))"
        using s1 by (simp add: forwarded_def)
      then have "prefix (forwarded b) (forwarded b2)"
        using ih(7) by (rule prefix_order.trans)
      ultimately show ?thesis using res ih(1,3,4,5,6) s1 loop by auto
    next
      case False
      define k1 where "k1 = min (Available b) (length p)"
      define b1 where "b1 = snd (bufio_Flush (b\<lparr>buf := buf b @ take k1 p\<rparr>))"
      obtain e1 where fl: "bufio_Flush (b\<lparr>buf := buf b @ take k1 p\<rparr>) = (e1, b1)"
        by (cases "bufio_Flush (b\<lparr>buf := buf b @ take k1 p\<rparr>)") (simp add: b1_def)
      obtain k2 e2 b2 where rec: "bufio_Write b1 (drop k1 p) = (k2, e2, b2)"
        by (cases "bufio_Write b1 (drop k1 p)") auto
      from "1.prems" loop False rec have res: "k = k1 + k2" "e = e2" "b' = b2"
        by (simp_all add: bufio_Write.simps[of b p] Let_def k1_def[symmetric] b1_def[symmetric])
      from "1.IH"(2)[OF loop False k1_def b1_def rec]
      have ih: "k2 \<le> length (drop k1 p)"
        "stream b2 = stream b1 @ take k2 (drop k1 p)"
        "e2 = None \<longrightarrow> k2 = length (drop k1 p)" "err b2 = e2" "bufsize b2 = bufsize b1"
        "set (buf b2) \<subseteq> set (buf b1) \<union> set (drop k1 p)"
        "prefix (forwarded b1) (forwarded b2)"
        by simp_all
      note f = bufio_Flush_stream[OF fl]
      have "stream b1 = stream b @ take k1 p"
        using f(1) by (simp add: stream_def forwarded_def)
      moreover have "take k1 p @ take k2 (drop k1 p) = take (k1 + k2) p"
        by (simp add: take_add)
      ultimately have "stream b2 = stream b @ take (k1 + k2) p"
        using ih(2) by simp
      moreover have "set (drop k1 p) \<subseteq> set p" by (rule set_drop_subset)
      moreover have "set (take k1 p) \<subseteq> set p" by (rule set_take_subset)
      moreover have "k1 \<le> length p" by (simp add: k1_def)
      moreover have "prefix (forwarded b) (forwarded b1)"
        using f(7) by (simp add: forwarded_def)
      then have "prefix (forwarded b) (forwarded b2)"
        using ih(7) by (rule prefix_order.trans)
      ultimately show ?thesis using res ih(1,3,4,5,6) f(2,6) loop by auto
    qed
  qed
qed

section \<open>Facts about the line writer\<close>

text \<open>
  The same for the closure, the loop and \<open>Write\<close>.  Between calls of the closure,
  \<open>total\<close> equals \<open>lower\<close>; \<open>S0\<close> is the stream before \<open>Write\<close> began.
\<close>

lemma take_take_drop: "k \<le> m \<Longrightarrow> take a p @ take k (take m (drop a p)) = take (a + k) p"
  by (simp add: take_add min_def)

lemma passthrough_props:
  assumes pt: "passthrough p upper flush f = (e, f')"
    and lo: "lower f \<le> upper" and up: "upper \<le> length p"
    and tot: "total f = lower f"
    and st: "stream (buffer (this f)) = S0 @ take (lower f) p"
  shows "stream (buffer (this f')) = S0 @ take (total f') p"
    and "lower f \<le> total f'" and "total f' \<le> upper"
    and "e = None \<Longrightarrow> total f' = upper \<and> lower f' = upper"
    and "err (buffer (this f')) = e"
    and "bufsize (buffer (this f')) = bufsize (buffer (this f))"
    and "prefix (forwarded (buffer (this f))) (forwarded (buffer (this f')))"
    and "e = None \<Longrightarrow> flush \<Longrightarrow> buf (buffer (this f')) = []"
    and "set (buf (buffer (this f'))) \<subseteq>
           set (buf (buffer (this f))) \<union> set (take (upper - lower f) (drop (lower f) p))"
    and "e = None \<Longrightarrow> err (buffer (this f)) = None"
proof -
  define seg where "seg = take (upper - lower f) (drop (lower f) p)"
  obtain k e1 b1 where bw: "bufio_Write (buffer (this f)) seg = (k, e1, b1)"
    by (cases "bufio_Write (buffer (this f)) seg") auto
  obtain e2 b2 where bf: "bufio_Flush b1 = (e2, b2)"
    by (cases "bufio_Flush b1") auto
  have seglen: "length seg = upper - lower f" using lo up by (simp add: seg_def)
  from bufio_Write_props[OF bw] have w:
    "k \<le> length seg" "stream b1 = stream (buffer (this f)) @ take k seg"
    "e1 = None \<longrightarrow> k = length seg" "err b1 = e1"
    "bufsize b1 = bufsize (buffer (this f))"
    "set (buf b1) \<subseteq> set (buf (buffer (this f))) \<union> set seg"
    "e1 = None \<longrightarrow> err (buffer (this f)) = None"
    "prefix (forwarded (buffer (this f))) (forwarded b1)"
    by simp_all
  have s1: "stream b1 = S0 @ take (lower f + k) p"
    using w(1,2) st seglen take_take_drop[of k "upper - lower f" "lower f" p]
    by (simp add: seg_def)
  note fl = bufio_Flush_stream[OF bf]
  have pf2: "prefix (forwarded (buffer (this f))) (forwarded b2)"
    using w(8) fl(7) by (rule prefix_order.trans)
  consider (a) "e1 \<noteq> None" "e = e1" "f' = f\<lparr>total := total f + k, this := \<lparr>buffer = b1\<rparr>\<rparr>"
    | (b) "e1 = None" "flush" "e2 \<noteq> None" "e = e2"
          "f' = f\<lparr>total := total f + k, this := \<lparr>buffer = b2\<rparr>\<rparr>"
    | (c) "e1 = None" "flush" "e2 = None" "e = None"
          "f' = f\<lparr>total := total f + k, this := \<lparr>buffer = b2\<rparr>, lower := upper\<rparr>"
    | (d) "e1 = None" "\<not> flush" "e = None"
          "f' = f\<lparr>total := total f + k, this := \<lparr>buffer = b1\<rparr>, lower := upper\<rparr>"
    using pt bw bf by (auto simp: passthrough_def seg_def[symmetric] Let_def split: if_splits)
  then have all: "stream (buffer (this f')) = S0 @ take (total f') p
    \<and> lower f \<le> total f' \<and> total f' \<le> upper
    \<and> (e = None \<longrightarrow> total f' = upper \<and> lower f' = upper)
    \<and> err (buffer (this f')) = e
    \<and> bufsize (buffer (this f')) = bufsize (buffer (this f))
    \<and> prefix (forwarded (buffer (this f))) (forwarded (buffer (this f')))
    \<and> (e = None \<longrightarrow> flush \<longrightarrow> buf (buffer (this f')) = [])
    \<and> set (buf (buffer (this f'))) \<subseteq> set (buf (buffer (this f))) \<union> set seg
    \<and> (e = None \<longrightarrow> err (buffer (this f)) = None)"
  proof cases
    case a
    then show ?thesis using s1 w tot seglen lo by auto
  next
    case b
    then show ?thesis using s1 w fl pf2 tot seglen lo by auto
  next
    case c
    then show ?thesis using s1 w fl pf2 tot seglen lo by auto
  next
    case d
    then show ?thesis using s1 w tot seglen lo by auto
  qed
  from all show "stream (buffer (this f')) = S0 @ take (total f') p" by simp
  from all show "lower f \<le> total f'" by simp
  from all show "total f' \<le> upper" by simp
  from all show "e = None \<Longrightarrow> total f' = upper \<and> lower f' = upper" by simp
  from all show "err (buffer (this f')) = e" by simp
  from all show "bufsize (buffer (this f')) = bufsize (buffer (this f))" by simp
  from all show "prefix (forwarded (buffer (this f))) (forwarded (buffer (this f')))" by simp
  from all show "e = None \<Longrightarrow> flush \<Longrightarrow> buf (buffer (this f')) = []" by simp
  from all show "set (buf (buffer (this f'))) \<subseteq>
           set (buf (buffer (this f))) \<union> set (take (upper - lower f) (drop (lower f) p))"
    by (simp add: seg_def)
  from all show "e = None \<Longrightarrow> err (buffer (this f)) = None" by simp
qed

lemma Write_loop_props:
  assumes "Write_loop p i cs f = (e, f')"
    and "cs = drop i p" and "lower f \<le> i" and "total f = lower f"
    and "stream (buffer (this f)) = S0 @ take (lower f) p"
    and "i \<le> length p"
  shows "stream (buffer (this f')) = S0 @ take (total f') p
    \<and> lower f \<le> total f' \<and> total f' \<le> length p
    \<and> (e = None \<longrightarrow> total f' = lower f' \<and> lower f' \<le> length p)
    \<and> (e \<noteq> None \<longrightarrow> err (buffer (this f')) = e)
    \<and> bufsize (buffer (this f')) = bufsize (buffer (this f))
    \<and> prefix (forwarded (buffer (this f))) (forwarded (buffer (this f')))
    \<and> (e = None \<longrightarrow> (f' = f \<and> newline \<notin> set cs) \<or>
          (newline \<notin> set (drop (lower f') p) \<and> buf (buffer (this f')) = []
           \<and> err (buffer (this f')) = None \<and> i < lower f'))
    \<and> (err (buffer (this f')) = None \<longrightarrow> err (buffer (this f)) = None)"
  using assms
proof (induction cs arbitrary: i f)
  case Nil
  then show ?case by auto
next
  case (Cons c cs)
  from Cons.prems(2) have ilt: "i < length p"
    by (metis drop_eq_Nil list.distinct(1) not_le)
  have cs: "cs = drop (i + 1) p" and c: "c = p ! i"
    using Cons.prems(2) ilt by (simp_all add: Cons_nth_drop_Suc[symmetric])
  show ?case
  proof (cases "c = newline")
    case False
    then have "Write_loop p (i + 1) cs f = (e, f')" using Cons.prems(1) by simp
    from Cons.IH[OF this cs _ Cons.prems(4,5)] Cons.prems(3) False ilt
    show ?thesis by auto
  next
    case True
    obtain e1 f1 where pt: "passthrough p (i + 1) True f = (e1, f1)"
      by (cases "passthrough p (i + 1) True f") auto
    have lo: "lower f \<le> i + 1" and up: "i + 1 \<le> length p"
      using Cons.prems(3) ilt by simp_all
    note P = passthrough_props[OF pt lo up Cons.prems(4,5)]
    show ?thesis
    proof (cases "e1 = None")
      case False
      then have "e = e1" "f' = f1" using Cons.prems(1) True pt by simp_all
      then show ?thesis using P(1,2,3,5,6,7) False up by auto
    next
      case e1: True
      then have rec: "Write_loop p (i + 1) cs f1 = (e, f')"
        using Cons.prems(1) True pt by simp
      from P(4)[OF e1] have f1: "total f1 = i + 1" "lower f1 = i + 1" by simp_all
      have st1: "stream (buffer (this f1)) = S0 @ take (lower f1) p"
        using P(1) f1 by simp
      have "lower f1 \<le> i + 1" "total f1 = lower f1" using f1 by simp_all
      from Cons.IH[OF rec cs this st1 up]
      have ih: "stream (buffer (this f')) = S0 @ take (total f') p"
        "lower f1 \<le> total f'" "total f' \<le> length p"
        "e = None \<longrightarrow> total f' = lower f' \<and> lower f' \<le> length p"
        "e \<noteq> None \<longrightarrow> err (buffer (this f')) = e"
        "bufsize (buffer (this f')) = bufsize (buffer (this f1))"
        "prefix (forwarded (buffer (this f1))) (forwarded (buffer (this f')))"
        "e = None \<longrightarrow> (f' = f1 \<and> newline \<notin> set cs) \<or>
          (newline \<notin> set (drop (lower f') p) \<and> buf (buffer (this f')) = []
           \<and> err (buffer (this f')) = None \<and> i + 1 < lower f')"
        "err (buffer (this f')) = None \<longrightarrow> err (buffer (this f1)) = None"
        by simp_all
      have pf: "prefix (forwarded (buffer (this f))) (forwarded (buffer (this f')))"
        using P(7) ih(7) by (rule prefix_order.trans)
      have last: "e = None \<longrightarrow> (newline \<notin> set (drop (lower f') p) \<and> buf (buffer (this f')) = []
           \<and> err (buffer (this f')) = None \<and> i < lower f')"
      proof
        assume en: "e = None"
        from ih(8) en consider "f' = f1" "newline \<notin> set cs"
          | "newline \<notin> set (drop (lower f') p)" "buf (buffer (this f')) = []"
            "err (buffer (this f')) = None" "i + 1 < lower f'"
          by auto
        then show "newline \<notin> set (drop (lower f') p) \<and> buf (buffer (this f')) = []
           \<and> err (buffer (this f')) = None \<and> i < lower f'"
        proof cases
          case 1
          then show ?thesis using f1 cs P(5) P(8)[OF e1] e1 by simp
        next
          case 2
          then show ?thesis by simp
        qed
      qed
      show ?thesis using ih(1,3,4,5) ih(2) f1 P(6) ih(6) pf last Cons.prems(3) P(10)[OF e1]
        by auto
    qed
  qed
qed

lemma Write_props:
  assumes "Write l p = (k, e, l')"
  shows "k \<le> length p"
    and "stream (buffer l') = stream (buffer l) @ take k p"
    and "e = None \<Longrightarrow> k = length p"
    and "e \<noteq> None \<Longrightarrow> err (buffer l') = e"
    and "p \<noteq> [] \<Longrightarrow> err (buffer l') = e"
    and "bufsize (buffer l') = bufsize (buffer l)"
    and "prefix (forwarded (buffer l)) (forwarded (buffer l'))"
    and "err (buffer l') = None \<Longrightarrow> newline \<notin> set (buf (buffer l)) \<Longrightarrow>
           newline \<notin> set (buf (buffer l'))"
    and "err (buffer l') = None \<Longrightarrow> err (buffer l) = None"
proof -
  define f0 where "f0 = \<lparr>lower = 0, total = 0, this = l\<rparr>"
  obtain e1 f1 where lp: "Write_loop p 0 p f0 = (e1, f1)"
    by (cases "Write_loop p 0 p f0") auto
  have "stream (buffer (this f0)) = stream (buffer l) @ take (lower f0) p"
    by (simp add: f0_def)
  from Write_loop_props[OF lp _ _ _ this]
  have L: "stream (buffer (this f1)) = stream (buffer l) @ take (total f1) p"
    "total f1 \<le> length p"
    "e1 = None \<longrightarrow> total f1 = lower f1 \<and> lower f1 \<le> length p"
    "e1 \<noteq> None \<longrightarrow> err (buffer (this f1)) = e1"
    "bufsize (buffer (this f1)) = bufsize (buffer l)"
    "prefix (forwarded (buffer l)) (forwarded (buffer (this f1)))"
    "e1 = None \<longrightarrow> (f1 = f0 \<and> newline \<notin> set p) \<or>
          (newline \<notin> set (drop (lower f1) p) \<and> buf (buffer (this f1)) = []
           \<and> err (buffer (this f1)) = None \<and> 0 < lower f1)"
    "err (buffer (this f1)) = None \<longrightarrow> err (buffer l) = None"
    by (simp_all add: f0_def)
  obtain e2 f2 where pt: "passthrough p (length p) False f1 = (e2, f2)"
    by (cases "passthrough p (length p) False f1") auto
  consider (failed) "e1 \<noteq> None" "k = total f1" "e = e1" "l' = this f1"
    | (rest) "e1 = None" "lower f1 < length p" "k = total f2" "e = e2" "l' = this f2"
    | (nothing_left) "e1 = None" "\<not> lower f1 < length p" "k = total f1" "e = None" "l' = this f1"
    using assms lp pt by (auto simp: Write_def f0_def[symmetric] split: if_splits)
  then have all: "k \<le> length p
    \<and> stream (buffer l') = stream (buffer l) @ take k p
    \<and> (e = None \<longrightarrow> k = length p)
    \<and> (e \<noteq> None \<longrightarrow> err (buffer l') = e)
    \<and> (p \<noteq> [] \<longrightarrow> err (buffer l') = e)
    \<and> bufsize (buffer l') = bufsize (buffer l)
    \<and> prefix (forwarded (buffer l)) (forwarded (buffer l'))
    \<and> (err (buffer l') = None \<longrightarrow> newline \<notin> set (buf (buffer l)) \<longrightarrow>
           newline \<notin> set (buf (buffer l')))
    \<and> (err (buffer l') = None \<longrightarrow> err (buffer l) = None)"
  proof cases
    case failed
    then show ?thesis using L by auto
  next
    case rest
    have a: "lower f1 \<le> length p" "total f1 = lower f1" using L(3) rest(1) by simp_all
    have st: "stream (buffer (this f1)) = stream (buffer l) @ take (lower f1) p"
      using L(1) a by simp
    note P = passthrough_props[OF pt a(1) le_refl a(2) st]
    have pf: "prefix (forwarded (buffer l)) (forwarded (buffer (this f2)))"
      using L(6) P(7) by (rule prefix_order.trans)
    have nl: "newline \<notin> set (buf (buffer l)) \<longrightarrow> newline \<notin> set (buf (buffer (this f2)))"
    proof
      assume n0: "newline \<notin> set (buf (buffer l))"
      from L(7) rest(1) consider "f1 = f0" "newline \<notin> set p"
        | "newline \<notin> set (drop (lower f1) p)" "buf (buffer (this f1)) = []" by auto
      then have "newline \<notin> set (buf (buffer (this f1))) \<and> newline \<notin> set (drop (lower f1) p)"
      proof cases
        case 1
        then show ?thesis using n0 by (auto simp: f0_def dest: in_set_dropD)
      next
        case 2
        then show ?thesis by simp
      qed
      then show "newline \<notin> set (buf (buffer (this f2)))" using P(9) by auto
    qed
    have e0: "err (buffer (this f2)) = None \<longrightarrow> err (buffer l) = None"
      using P(5) P(10) L(8) by auto
    show ?thesis using rest P(1,3,4,5,6) pf nl e0 L(5) by auto
  next
    case nothing_left
    then show ?thesis using L by (auto simp: f0_def)
  qed
  from all show "k \<le> length p" by simp
  from all show "stream (buffer l') = stream (buffer l) @ take k p" by simp
  from all show "e = None \<Longrightarrow> k = length p" by simp
  from all show "e \<noteq> None \<Longrightarrow> err (buffer l') = e" by simp
  from all show "p \<noteq> [] \<Longrightarrow> err (buffer l') = e" by simp
  from all show "bufsize (buffer l') = bufsize (buffer l)" by simp
  from all show "prefix (forwarded (buffer l)) (forwarded (buffer l'))" by simp
  from all show "err (buffer l') = None \<Longrightarrow> newline \<notin> set (buf (buffer l)) \<Longrightarrow>
           newline \<notin> set (buf (buffer l'))" by simp
  from all show "err (buffer l') = None \<Longrightarrow> err (buffer l) = None" by simp
qed

section \<open>Facts about a healthy sink\<close>

text \<open>
  With a sound buffered writer every operation succeeds, writes all of its input and
  leaves a sound writer.  An append that fits is a copy; an append to an empty buffer
  that exceeds the buffer goes to the sink in one call.
\<close>

lemma healthy_took: "healthy s \<Longrightarrow> healthy (took s p)"
  by (cases "script s") (simp_all add: healthy_def took_def)

lemma sink_Write_healthy: "healthy s \<Longrightarrow> sink_Write s p = (length p, None, took s p)"
  by (cases "script s") (auto simp: healthy_def took_def sink_Write_def)

lemma bufio_Flush_sound:
  "sound b \<Longrightarrow> bufio_Flush b =
     (None, if buf b = [] then b else b\<lparr>buf := [], wr := took (wr b) (buf b)\<rparr>)"
  by (simp add: sound_def bufio_Flush_def sink_Write_healthy)

lemma sound_Flush: "sound b \<Longrightarrow> sound (snd (bufio_Flush b))"
  by (simp add: bufio_Flush_sound) (simp add: sound_def healthy_took)

lemma bufio_Write_fits:
  "err b = None \<Longrightarrow> length p \<le> Available b \<Longrightarrow>
     bufio_Write b p = (length p, None, b\<lparr>buf := buf b @ p\<rparr>)"
  by (simp add: bufio_Write.simps[of b p])

lemma bufio_Write_direct:
  assumes "sound b" "buf b = []" "bufsize b < length p"
  shows "bufio_Write b p = (length p, None, b\<lparr>wr := took (wr b) p\<rparr>)"
proof -
  have eq: "b\<lparr>err := None, wr := took (wr b) p\<rparr> = b\<lparr>wr := took (wr b) p\<rparr>"
    using assms(1) by (simp add: sound_def)
  have "bufio_Write (b\<lparr>wr := took (wr b) p\<rparr>) [] = (0, None, b\<lparr>wr := took (wr b) p\<rparr>)"
    using assms(1) by (simp add: bufio_Write.simps[of _ "[]"] sound_def)
  then have rec: "bufio_Write (b\<lparr>err := None, wr := took (wr b) p\<rparr>) [] =
      (0, None, b\<lparr>wr := took (wr b) p\<rparr>)"
    by (simp only: eq)
  have sw: "sink_Write (wr b) p = (length p, None, took (wr b) p)"
    using assms(1) by (simp add: sound_def sink_Write_healthy)
  have c: "length p > Available b \<and> err b = None" "Buffered b = 0"
    using assms by (simp_all add: sound_def Available_def Buffered_def)
  show ?thesis
    by (subst bufio_Write.simps) (simp add: c sw rec)
qed

lemma bufio_Write_sound:
  "sound b \<Longrightarrow> fst (snd (bufio_Write b p)) = None \<and> sound (snd (snd (bufio_Write b p)))"
proof (induction b p rule: bufio_Write.induct)
  case (1 b p)
  show ?case
  proof (cases "length p > Available b \<and> err b = None")
    case False
    then show ?thesis using "1.prems"
      by (auto simp: bufio_Write.simps[of b p] Let_def sound_def)
  next
    case loop: True
    show ?thesis
    proof (cases "Buffered b = 0")
      case True
      have sw: "sink_Write (wr b) p = (length p, None, took (wr b) p)"
        using "1.prems" by (simp add: sound_def sink_Write_healthy)
      have "sound (b\<lparr>err := None, wr := took (wr b) p\<rparr>)"
        using "1.prems" by (simp add: sound_def healthy_took)
      from "1.IH"(1)[OF loop True sw[symmetric] refl this]
      have ih: "fst (snd (bufio_Write (b\<lparr>err := None, wr := took (wr b) p\<rparr>) (drop (length p) p))) = None"
        "sound (snd (snd (bufio_Write (b\<lparr>err := None, wr := took (wr b) p\<rparr>) (drop (length p) p))))"
        by simp_all
      obtain k2 e2 b2 where
        r: "bufio_Write (b\<lparr>err := None, wr := took (wr b) p\<rparr>) (drop (length p) p) = (k2, e2, b2)"
        by (cases "bufio_Write (b\<lparr>err := None, wr := took (wr b) p\<rparr>) (drop (length p) p)") auto
      have "bufio_Write b p = (length p + k2, e2, b2)"
        apply (subst bufio_Write.simps)
        apply (simp only: loop True sw r if_True prod.case)
        apply simp
        done
      then show ?thesis using ih r by simp
    next
      case False
      define k1 where "k1 = min (Available b) (length p)"
      define b1 where "b1 = snd (bufio_Flush (b\<lparr>buf := buf b @ take k1 p\<rparr>))"
      have "sound (b\<lparr>buf := buf b @ take k1 p\<rparr>)" using "1.prems" by (simp add: sound_def)
      then have "sound b1" unfolding b1_def by (rule sound_Flush)
      from "1.IH"(2)[OF loop False k1_def b1_def this]
      have ih: "fst (snd (bufio_Write b1 (drop k1 p))) = None"
        "sound (snd (snd (bufio_Write b1 (drop k1 p))))" by simp_all
      obtain k2 e2 b2 where r: "bufio_Write b1 (drop k1 p) = (k2, e2, b2)"
        by (cases "bufio_Write b1 (drop k1 p)") auto
      have "bufio_Write b p = (k1 + k2, e2, b2)"
        apply (subst bufio_Write.simps)
        apply (simp only: loop False if_True if_False Let_def k1_def[symmetric]
            b1_def[symmetric] r prod.case)
        apply simp
        done
      then show ?thesis using ih r by simp
    qed
  qed
qed

lemma bufio_Write_sound_result:
  assumes "sound b"
  obtains b' where "bufio_Write b p = (length p, None, b')" "sound b'"
proof -
  obtain k e b' where r: "bufio_Write b p = (k, e, b')"
    by (cases "bufio_Write b p") auto
  from bufio_Write_sound[OF assms, of p] r have "e = None" "sound b'" by simp_all
  moreover from bufio_Write_props[OF r] \<open>e = None\<close> have "k = length p" by simp
  ultimately show ?thesis using r that by simp
qed

lemma passthrough_sound:
  assumes "sound (buffer (this f))"
  shows "fst (passthrough p upper flush f) = None
    \<and> sound (buffer (this (snd (passthrough p upper flush f))))"
proof -
  obtain b' where w: "bufio_Write (buffer (this f)) (take (upper - lower f) (drop (lower f) p))
      = (length (take (upper - lower f) (drop (lower f) p)), None, b')" "sound b'"
    using bufio_Write_sound_result[OF assms] by blast
  show ?thesis using w sound_Flush[OF w(2)] bufio_Flush_sound[OF w(2)]
    by (auto simp: passthrough_def Let_def split: prod.splits)
qed

lemma Write_loop_sound:
  "sound (buffer (this f)) \<Longrightarrow> fst (Write_loop p i cs f) = None
    \<and> sound (buffer (this (snd (Write_loop p i cs f))))"
proof (induction cs arbitrary: i f)
  case Nil
  then show ?case by simp
next
  case (Cons c cs)
  from passthrough_sound[OF Cons.prems, of p "i + 1" True]
  have "fst (passthrough p (i + 1) True f) = None"
    "sound (buffer (this (snd (passthrough p (i + 1) True f))))" by simp_all
  then show ?case using Cons.IH Cons.prems
    by (auto split: prod.splits)
qed

lemma Write_sound:
  assumes "sound (buffer l)"
  obtains l' where "Write l p = (length p, None, l')" "sound (buffer l')"
proof -
  obtain k e l' where r: "Write l p = (k, e, l')" by (cases "Write l p") auto
  define f0 where "f0 = \<lparr>lower = 0, total = 0, this = l\<rparr>"
  have s0: "sound (buffer (this f0))" using assms by (simp add: f0_def)
  note L = Write_loop_sound[OF s0, of p 0 p]
  note P = passthrough_sound[OF conjunct2[OF L], of p "length p" False]
  have "e = None \<and> sound (buffer l')"
    using r L P by (auto simp: Write_def f0_def[symmetric] split: prod.splits if_splits)
  moreover from this Write_props(3)[OF r] have "k = length p" by simp
  ultimately show ?thesis using r that by simp
qed

lemma WriteRune_encoding: "WriteRune l r = Write l (encoding r)"
  by (simp add: WriteRune_def encoding_def split: prod.splits)

lemma Flush_sound:
  assumes "sound (buffer l)"
  shows "Flush l = (None, \<lparr>buffer = if buf (buffer l) = [] then buffer l
            else (buffer l)\<lparr>buf := [], wr := took (wr (buffer l)) (buf (buffer l))\<rparr>\<rparr>)"
  using assms by (simp add: Flush_def bufio_Flush_sound)

lemma Flush_sound_props:
  assumes "sound (buffer l)"
  shows "fst (Flush l) = None" and "sound (buffer (snd (Flush l)))"
    and "buf (buffer (snd (Flush l))) = []"
    and "forwarded (buffer (snd (Flush l))) = stream (buffer l)"
proof -
  show "fst (Flush l) = None" by (simp add: Flush_sound[OF assms])
  show "sound (buffer (snd (Flush l)))"
    using sound_Flush[OF assms] by (cases "bufio_Flush (buffer l)") (simp add: Flush_def)
  show "buf (buffer (snd (Flush l))) = []" by (simp add: Flush_sound[OF assms])
  show "forwarded (buffer (snd (Flush l))) = stream (buffer l)"
    by (simp add: Flush_sound[OF assms] stream_def forwarded_def took_def)
qed

lemma do_call_Write: "do_call l c = (if c = CFlush then Flush l else snd (Write l (input_of c)))"
  by (cases c) (simp_all add: WriteByte_def WriteRune_encoding WriteString_def split: prod.splits)

lemma do_call_sound:
  assumes "sound (buffer l)"
  shows "fst (do_call l c) = None \<and> sound (buffer (snd (do_call l c)))"
proof (cases "c = CFlush")
  case True
  then show ?thesis using Flush_sound_props(1,2)[OF assms] by simp
next
  case False
  obtain l' where "Write l (input_of c) = (length (input_of c), None, l')" "sound (buffer l')"
    using Write_sound[OF assms] by blast
  then show ?thesis using False by (simp add: do_call_Write)
qed

lemma run_sound:
  "sound (buffer l) \<Longrightarrow>
     list_all (\<lambda>e. e = None) (fst (run l cs)) \<and> sound (buffer (snd (run l cs)))"
proof (induction cs arbitrary: l)
  case Nil
  then show ?case by simp
next
  case (Cons c cs)
  from do_call_sound[OF Cons.prems, of c] Cons.IH[of "snd (do_call l c)"]
  show ?case by (auto split: prod.splits)
qed

lemma sound_New: "healthy s \<Longrightarrow> sound (buffer (New s))"
  by (simp add: New_def bufio_NewWriter_def sound_def)

section \<open>Facts about the encoding\<close>

text \<open>
  The library compares the rune as an unsigned number, which sends the negative runes
  above \<open>MaxRune\<close>; so the invalid runes are exactly those of its third case.
\<close>

lemma uint_sint32: "uint (r::32 word) = (if sint r < 0 then sint r + 2 ^ 32 else sint r)"
proof -
  have b: "- (2 ^ 31) \<le> sint r" "sint r < 2 ^ 31"
    using sint_ge[of r] sint_lt[of r] by simp_all
  have u: "uint r = sint r mod 2 ^ 32"
    using uint_sint[of r] by (simp add: take_bit_eq_mod)
  show ?thesis
  proof (cases "sint r < 0")
    case True
    have "(sint r + 2 ^ 32) mod 2 ^ 32 = sint r + 2 ^ 32"
      using b True by (intro mod_pos_pos_trivial) simp_all
    then show ?thesis using u True by simp
  next
    case False
    have "sint r mod 2 ^ 32 = sint r"
      using b False by (intro mod_pos_pos_trivial) simp_all
    then show ?thesis using u False by simp
  qed
qed

lemma invalid_rune_unsigned:
  "invalid_rune r \<longleftrightarrow> MaxRune < r \<or> (surrogateMin \<le> r \<and> r \<le> surrogateMax)"
  using sint_ge[of r] sint_lt[of r]
  by (auto simp: invalid_rune_def MaxRune_def surrogateMin_def surrogateMax_def
      word_le_def word_less_def uint_sint32 split: if_splits)

lemma EncodeRune_invalid:
  assumes "invalid_rune r"
  shows "utf8_EncodeRune (replicate UTFMax 0) r = ([0xEF, 0xBF, 0xBD, 0], 3)"
proof -
  have c: "MaxRune < r \<or> (surrogateMin \<le> r \<and> r \<le> surrogateMax)"
    using assms by (simp add: invalid_rune_unsigned)
  then have n1: "\<not> r \<le> rune1Max" and n2: "\<not> r \<le> rune2Max"
    by (auto simp: MaxRune_def surrogateMin_def surrogateMax_def rune1Max_def rune2Max_def
        word_le_def word_less_def)
  have "encode3 (replicate UTFMax 0) RuneError = ([0xEF, 0xBF, 0xBD, 0], 3)"
    by code_simp
  then show ?thesis using c n1 n2 by (simp add: utf8_EncodeRune_def Let_def)
qed

lemma encoding_invalid: "invalid_rune r \<Longrightarrow> encoding r = [0xEF, 0xBF, 0xBD]"
  by (simp add: encoding_def EncodeRune_invalid)

lemma length_encoding: "1 \<le> length (encoding r) \<and> length (encoding r) \<le> 4"
  by (simp add: encoding_def utf8_EncodeRune_def encode3_def UTFMax_def Let_def)

section \<open>Facts about sequences of calls\<close>

text \<open>
  Over a healthy sink the forwarded and buffered bytes together are the inputs of all
  calls so far, in order.  A \<open>Write\<close> without a newline is one append.
\<close>

lemma run_append:
  "run l (xs @ ys) =
     (case run l xs of (es, l1) \<Rightarrow> (case run l1 ys of (es2, l2) \<Rightarrow> (es @ es2, l2)))"
  by (induction xs arbitrary: l) (auto split: prod.splits)

lemma snd_run_Cons: "snd (run l (c # cs)) = snd (run (snd (do_call l c)) cs)"
  by (simp split: prod.splits)

lemma snd_run_snoc: "snd (run l (cs @ [c])) = snd (do_call (snd (run l cs)) c)"
  by (simp add: run_append split: prod.splits)

lemma do_call_sound_stream:
  assumes "sound (buffer l)"
  shows "stream (buffer (snd (do_call l c))) = stream (buffer l) @ input_of c"
proof (cases "c = CFlush")
  case True
  obtain e b where f: "bufio_Flush (buffer l) = (e, b)" by (cases "bufio_Flush (buffer l)") auto
  from bufio_Flush_stream(1)[OF f] f True show ?thesis by (simp add: Flush_def)
next
  case False
  obtain l' where w: "Write l (input_of c) = (length (input_of c), None, l')"
    using Write_sound[OF assms] by blast
  from Write_props(2)[OF w] w False show ?thesis by (simp add: do_call_Write)
qed

lemma run_sound_stream:
  "sound (buffer l) \<Longrightarrow>
     stream (buffer (snd (run l cs))) = stream (buffer l) @ concat (map input_of cs)"
proof (induction cs arbitrary: l)
  case Nil
  then show ?case by simp
next
  case (Cons c cs)
  have s1: "sound (buffer (snd (do_call l c)))" using do_call_sound[OF Cons.prems] by simp
  from Cons.IH[OF s1] do_call_sound_stream[OF Cons.prems, of c]
  show ?case by (simp only: snd_run_Cons) simp
qed

lemma Write_loop_no_newline: "newline \<notin> set cs \<Longrightarrow> Write_loop p i cs f = (None, f)"
  by (induction cs arbitrary: i) auto

lemma Write_no_newline:
  assumes "newline \<notin> set p"
  shows "Write l p = (if p = [] then (0, None, l)
     else (case bufio_Write (buffer l) p of (k, e, b) \<Rightarrow> (k, e, \<lparr>buffer = b\<rparr>)))"
  using assms
  by (auto simp: Write_def Write_loop_no_newline passthrough_def Let_def split: prod.splits)

section \<open>Empty input\<close>

text \<open>
  C9: \<open>Write\<close> on an empty byte sequence returns \<open>(0, nil)\<close> and leaves the writer, its
  buffer and the sink (with its record of calls) exactly as they were.  It does so in
  every state, also when the buffered writer holds a recorded error, which any append or
  flush would have returned: neither is performed.
\<close>

theorem Write_empty: "Write l [] = (0, None, l)"
  by (simp add: Write_def)

section \<open>WriteByte and WriteString\<close>

text \<open>The two operations as the specification words them, in terms of \<open>Write\<close>.\<close>

definition spec_WriteByte :: "LineWriter \<Rightarrow> byte \<Rightarrow> error option \<times> LineWriter" where
  "spec_WriteByte l c = snd (Write l [c])"

definition spec_WriteString :: "LineWriter \<Rightarrow> string \<Rightarrow> nat \<times> error option \<times> LineWriter" where
  "spec_WriteString l s = Write l (map (\<lambda>c. word_of_nat (of_char c)) s)"

text \<open>
  C8: \<open>WriteByte c\<close> is \<open>Write\<close> on the one-byte sequence \<open>[c]\<close> with the count
  dropped, and \<open>WriteString s\<close> is \<open>Write\<close> on the bytes of \<open>s\<close>, with the same count
  and error.
\<close>

theorem WriteByte_WriteString_refine:
  "WriteByte l c = spec_WriteByte l c \<and> WriteString l s = spec_WriteString l s"
proof
  show "WriteByte l c = spec_WriteByte l c"
    by (cases "Write l [c]") (simp add: WriteByte_def spec_WriteByte_def)
  have "bytes_of s = map (\<lambda>c. word_of_nat (of_char c)) s"
    by (simp add: bytes_of_def of_char_def)
  then show "WriteString l s = spec_WriteString l s"
    by (simp add: WriteString_def spec_WriteString_def)
qed

section \<open>Count and error of Write\<close>




section \<open>Flush twice\<close>

text \<open>
  C6: in every state a writer over a healthy sink can reach, \<open>Flush\<close> succeeds, and a
  second \<open>Flush\<close> right after it returns no error and changes nothing: the sink is not
  called again and receives no byte.
\<close>

theorem Flush_idempotent:
  assumes "healthy s" and "l = snd (run (New s) cs)"
  shows "fst (Flush l) = None \<and> Flush (snd (Flush l)) = (None, snd (Flush l))"
proof -
  have s: "sound (buffer l)" using run_sound[OF sound_New[OF assms(1)]] assms(2) by simp
  note F = Flush_sound_props[OF s]
  show ?thesis using F(1) Flush_sound[OF F(2)] F(3) by simp
qed

theorem Flush_idempotent_witness:
  "healthy healthy_sink
   \<and> fst (Flush (snd (run (New healthy_sink) [CWrite [0x61, 0x0a, 0x62]]))) = None
   \<and> Flush (snd (Flush (snd (run (New healthy_sink) [CWrite [0x61, 0x0a, 0x62]]))))
       = (None, snd (Flush (snd (run (New healthy_sink) [CWrite [0x61, 0x0a, 0x62]]))))
   \<and> received (wr (buffer (snd (Flush (snd (run (New healthy_sink) [CWrite [0x61, 0x0a, 0x62]]))))))
       = [[0x61, 0x0a], [0x62]]"
proof -
  have h: "healthy healthy_sink" by code_simp
  have r: "received (wr (buffer (snd (Flush (snd (run (New healthy_sink) [CWrite [0x61, 0x0a, 0x62]]))))))
       = [[0x61, 0x0a], [0x62]]" by code_simp
  show ?thesis using h r Flush_idempotent[OF h refl, of "[CWrite [0x61, 0x0a, 0x62]]"] by simp
qed

section \<open>WriteRune\<close>

text \<open>
  C10: for an invalid rune (negative, above \<open>U+10FFFF\<close> or a surrogate), in every state
  a writer over a healthy sink can reach, \<open>WriteRune\<close> writes the three bytes
  \<open>EF BF BD\<close> of \<open>U+FFFD\<close> behind what the writer held and returns \<open>(3, nil)\<close>.
\<close>

theorem WriteRune_invalid:
  assumes "invalid_rune r" and "healthy s" and "l = snd (run (New s) cs)"
  shows "encoding r = [0xEF, 0xBF, 0xBD]
    \<and> fst (WriteRune l r) = 3 \<and> fst (snd (WriteRune l r)) = None
    \<and> stream (buffer (snd (snd (WriteRune l r)))) = stream (buffer l) @ [0xEF, 0xBF, 0xBD]"
proof -
  have s: "sound (buffer l)" using run_sound[OF sound_New[OF assms(2)]] assms(3) by simp
  have e: "encoding r = [0xEF, 0xBF, 0xBD]" using assms(1) by (rule encoding_invalid)
  obtain l' where w: "Write l (encoding r) = (length (encoding r), None, l')"
    using Write_sound[OF s] by blast
  from Write_props(2)[OF w] w e show ?thesis by (simp add: WriteRune_encoding)
qed

theorem WriteRune_invalid_witness:
  "invalid_rune 0xD800 \<and> healthy healthy_sink
   \<and> WriteRune (snd (run (New healthy_sink) [CWrite [0x61]])) 0xD800 =
       (3, None, \<lparr>buffer = \<lparr>err = None, buf = [0x61, 0xEF, 0xBF, 0xBD], bufsize = 4096,
          wr = healthy_sink\<rparr>\<rparr>)"
proof -
  have i: "invalid_rune 0xD800" by (simp add: invalid_rune_def)
  have h: "healthy healthy_sink" by code_simp
  have r: "WriteRune (snd (run (New healthy_sink) [CWrite [0x61]])) 0xD800 =
       (3, None, \<lparr>buffer = \<lparr>err = None, buf = [0x61, 0xEF, 0xBF, 0xBD], bufsize = 4096,
          wr = healthy_sink\<rparr>\<rparr>)" by code_simp
  show ?thesis using i h r WriteRune_invalid[OF i h refl, of "[CWrite [0x61]]"] by simp
qed

text \<open>
  C7 as stated fails where it says that the returned count is the number of encoded
  bytes: once the buffered writer has recorded an error, \<open>WriteRune\<close> of the two-byte
  rune \<open>U+00E9\<close> returns the count 0 with that error.
\<close>

theorem WriteRune_count_counterexample:
  "WriteRune failed_writer 0xE9 = (0, Some (SinkError 1), failed_writer)
   \<and> length (encoding 0xE9) = 2"
  by code_simp

text \<open>
  C7, amended: \<open>WriteRune r\<close> is \<open>Write\<close> on the encoding of \<open>r\<close>, which has between 1
  and 4 bytes, and returns what that \<open>Write\<close> returns: its count of bytes written and its
  error.  When it returns no error the count is the number of encoded bytes.  On a fresh
  writer \<open>WriteRune\<close> of \<open>U+00E9\<close> returns \<open>(2, nil)\<close>, and the two bytes \<open>C3 A9\<close>
  are in the buffer with the sink untouched.
\<close>

theorem WriteRune_as_Write:
  "WriteRune l r = Write l (encoding r)
   \<and> 1 \<le> length (encoding r) \<and> length (encoding r) \<le> 4
   \<and> (fst (snd (WriteRune l r)) = None \<longrightarrow> fst (WriteRune l r) = length (encoding r))
   \<and> WriteRune (New s) 0xE9 =
         (2, None, \<lparr>buffer = (bufio_NewWriter s)\<lparr>buf := [0xC3, 0xA9]\<rparr>\<rparr>)"
proof -
  have a: "WriteRune l r = Write l (encoding r)" by (rule WriteRune_encoding)
  obtain k e l' where w: "Write l (encoding r) = (k, e, l')"
    by (cases "Write l (encoding r)") auto
  have b: "fst (snd (WriteRune l r)) = None \<longrightarrow> fst (WriteRune l r) = length (encoding r)"
    using Write_props(3)[OF w] w a by simp
  have enc: "encoding 0xE9 = [0xC3, 0xA9]" by code_simp
  have c: "WriteRune (New s) 0xE9 = (2, None, \<lparr>buffer = (bufio_NewWriter s)\<lparr>buf := [0xC3, 0xA9]\<rparr>\<rparr>)"
    by (simp add: WriteRune_encoding enc Write_def passthrough_def newline_def New_def
        bufio_Write_fits bufio_NewWriter_def Available_def defaultBufSize_def)
  show ?thesis using a b c length_encoding by simp
qed

theorem WriteRune_as_Write_witness:
  "fst (snd (WriteRune (New healthy_sink) 0x0a)) = None
   \<and> fst (WriteRune (New healthy_sink) 0x0a) = length (encoding 0x0a)
   \<and> length (encoding 0x0a) = 1"
proof -
  have n: "fst (snd (WriteRune (New healthy_sink) 0x0a)) = None" by code_simp
  have e: "length (encoding 0x0a) = 1" by code_simp
  from WriteRune_as_Write[of "New healthy_sink" "0x0a" healthy_sink]
  have "fst (snd (WriteRune (New healthy_sink) 0x0a)) = None \<longrightarrow>
      fst (WriteRune (New healthy_sink) 0x0a) = length (encoding 0x0a)"
    by blast
  with n e show ?thesis by blast
qed

section \<open>Input without a newline\<close>

text \<open>
  C4: for every \<open>p\<close> without a newline byte, \<open>Write p\<close> on a fresh writer over a
  healthy sink succeeds; unless \<open>p\<close> exceeds the capacity of the buffer, the sink has
  been handed nothing and \<open>p\<close> is in the buffer; and after a following \<open>Flush\<close>, which
  succeeds, the sink has received exactly \<open>p\<close> and the buffer is empty.
\<close>

theorem Write_without_newline:
  assumes "healthy s" and "newline \<notin> set p"
  shows "fst (Write (New s) p) = length p \<and> fst (snd (Write (New s) p)) = None
    \<and> (length p \<le> defaultBufSize \<longrightarrow>
         received (wr (buffer (snd (snd (Write (New s) p))))) = received s
         \<and> buf (buffer (snd (snd (Write (New s) p)))) = p)
    \<and> fst (Flush (snd (snd (Write (New s) p)))) = None
    \<and> forwarded (buffer (snd (Flush (snd (snd (Write (New s) p))))))
         = concat (received s) @ p
    \<and> buf (buffer (snd (Flush (snd (snd (Write (New s) p)))))) = []"
proof -
  have s0: "sound (buffer (New s))" using assms(1) by (rule sound_New)
  obtain l1 where w: "Write (New s) p = (length p, None, l1)" and s1: "sound (buffer l1)"
    using Write_sound[OF s0] by blast
  have st: "stream (buffer l1) = concat (received s) @ p"
    using Write_props(2)[OF w]
    by (simp add: stream_def forwarded_def New_def bufio_NewWriter_def)
  have small: "length p \<le> defaultBufSize \<longrightarrow>
      received (wr (buffer l1)) = received s \<and> buf (buffer l1) = p"
  proof
    assume "length p \<le> defaultBufSize"
    then have "bufio_Write (buffer (New s)) p = (length p, None, (buffer (New s))\<lparr>buf := p\<rparr>)"
      using bufio_Write_fits[of "buffer (New s)" p]
      by (simp add: New_def bufio_NewWriter_def Available_def)
    then show "received (wr (buffer l1)) = received s \<and> buf (buffer l1) = p"
      using w assms(2) by (auto simp: Write_no_newline New_def bufio_NewWriter_def split: if_splits)
  qed
  show ?thesis using w small Flush_sound_props(1,3,4)[OF s1] st by simp
qed

theorem Write_without_newline_witness:
  "healthy healthy_sink \<and> newline \<notin> set [0x61, 0x62 :: byte]
   \<and> length [0x61, 0x62 :: byte] \<le> defaultBufSize
   \<and> Write (New healthy_sink) [0x61, 0x62] =
        (2, None, \<lparr>buffer = \<lparr>err = None, buf = [0x61, 0x62], bufsize = 4096,
           wr = \<lparr>received = [], script = []\<rparr>\<rparr>\<rparr>)
   \<and> forwarded (buffer (snd (Flush (snd (snd (Write (New healthy_sink) [0x61, 0x62]))))))
         = concat (received healthy_sink) @ [0x61, 0x62]"
proof -
  have h: "healthy healthy_sink" by code_simp
  have n: "newline \<notin> set [0x61, 0x62 :: byte]" by (simp add: newline_def)
  have c: "length [0x61, 0x62 :: byte] \<le> defaultBufSize" by (simp add: defaultBufSize_def)
  have w: "Write (New healthy_sink) [0x61, 0x62] =
        (2, None, \<lparr>buffer = \<lparr>err = None, buf = [0x61, 0x62], bufsize = 4096,
           wr = \<lparr>received = [], script = []\<rparr>\<rparr>\<rparr>)" by code_simp
  from Write_without_newline[OF h n]
  have "forwarded (buffer (snd (Flush (snd (snd (Write (New healthy_sink) [0x61, 0x62]))))))
         = concat (received healthy_sink) @ [0x61, 0x62]" by blast
  with h n c w show ?thesis by blast
qed

section \<open>Round trip\<close>

text \<open>
  C5: for every byte sequence, cut in any way into pieces \<open>ps\<close> that are written by
  successive calls of \<open>Write\<close> on a fresh writer over a healthy sink, followed by
  \<open>Flush\<close>: every call succeeds, the sink has received exactly the sequence
  \<open>concat ps\<close>, in order, and nothing is left in the buffer.
\<close>

theorem round_trip:
  assumes "healthy s"
  shows "list_all (\<lambda>e. e = None) (fst (run (New s) (map CWrite ps @ [CFlush])))
    \<and> forwarded (buffer (snd (run (New s) (map CWrite ps @ [CFlush]))))
        = concat (received s) @ concat ps
    \<and> buf (buffer (snd (run (New s) (map CWrite ps @ [CFlush])))) = []"
proof -
  define l1 where "l1 = snd (run (New s) (map CWrite ps))"
  have s0: "sound (buffer (New s))" using assms by (rule sound_New)
  have s1: "sound (buffer l1)" using run_sound[OF s0] by (simp add: l1_def)
  have "input_of \<circ> CWrite = (\<lambda>p. p)" by (rule ext) simp
  then have st: "stream (buffer l1) = concat (received s) @ concat ps"
    using run_sound_stream[OF s0, of "map CWrite ps"]
    by (simp add: l1_def stream_def forwarded_def New_def bufio_NewWriter_def)
  have last: "snd (run (New s) (map CWrite ps @ [CFlush])) = snd (Flush l1)"
    by (simp only: snd_run_snoc l1_def do_call.simps)
  show ?thesis
    using run_sound[OF s0, of "map CWrite ps @ [CFlush]"] Flush_sound_props(3,4)[OF s1] st last
    by simp
qed

theorem round_trip_witness:
  "healthy healthy_sink
   \<and> run (New healthy_sink) (map CWrite [[0x61, 0x62], [0x63, 0x0a, 0x64], [], [0x65]] @ [CFlush])
      = ([None, None, None, None, None],
         \<lparr>buffer = \<lparr>err = None, buf = [], bufsize = 4096,
           wr = \<lparr>received = [[0x61, 0x62, 0x63, 0x0a], [0x64, 0x65]], script = []\<rparr>\<rparr>\<rparr>)
   \<and> forwarded (buffer (snd (run (New healthy_sink)
         (map CWrite [[0x61, 0x62], [0x63, 0x0a, 0x64], [], [0x65]] @ [CFlush]))))
      = concat (received healthy_sink) @ concat [[0x61, 0x62], [0x63, 0x0a, 0x64], [], [0x65]]"
proof -
  have h: "healthy healthy_sink" by code_simp
  have r: "run (New healthy_sink) (map CWrite [[0x61, 0x62], [0x63, 0x0a, 0x64], [], [0x65]] @ [CFlush])
      = ([None, None, None, None, None],
         \<lparr>buffer = \<lparr>err = None, buf = [], bufsize = 4096,
           wr = \<lparr>received = [[0x61, 0x62, 0x63, 0x0a], [0x64, 0x65]], script = []\<rparr>\<rparr>\<rparr>)"
    by code_simp
  from round_trip[OF h, of "[[0x61, 0x62], [0x63, 0x0a, 0x64], [], [0x65]]"]
  have "forwarded (buffer (snd (run (New healthy_sink)
         (map CWrite [[0x61, 0x62], [0x63, 0x0a, 0x64], [], [0x65]] @ [CFlush]))))
      = concat (received healthy_sink) @ concat [[0x61, 0x62], [0x63, 0x0a, 0x64], [], [0x65]]"
    by blast
  with h r show ?thesis by blast
qed

end
